theory Spec2Isabelle
  imports Main "HOL-Library.Multiset" "HOL-Library.List_Lexorder" "HOL-Library.Product_Lexorder"
begin

section \<open>Strings, paths and the world outside the script\<close>

text \<open>
  A Python \<open>str\<close> is a sequence of Unicode code points, so a string is a list of
  natural numbers here (\<open>len\<close> is \<open>length\<close>, comparison is lexicographic by code
  point). \<open>ustr\<close> reads an ASCII literal; the bytes of a PDF and of a page image are
  lists of numbers too.
\<close>

type_synonym ustring = "nat list"

definition ustr :: "string \<Rightarrow> ustring" where
  "ustr s = map of_char s"

definition underscore :: nat where
  "underscore = 95"

definition hyphen :: nat where
  "hyphen = 45"

text \<open>\<open>str(n)\<close> for a length \<open>n\<close>: the decimal digits.\<close>

fun str_of_nat :: "nat \<Rightarrow> ustring" where
  "str_of_nat n = (if n < 10 then [48 + n] else str_of_nat (n div 10) @ [48 + n mod 10])"

declare str_of_nat.simps [simp del]

datatype error = RuntimeError | CalledProcessError | OSError | ValueError | URLError

datatype retrieval = Retrieved "nat list" | RetrievalFailed "nat list option"

text \<open>
  Everything the script takes from outside the repository is a field of \<open>world\<close>:
  the Unicode tables behind \<open>\w\<close> and \<open>str.strip()\<close>, the builtin \<open>int()\<close>
  (\<open>None\<close> for \<open>ValueError\<close>), the directory \<open>BASE_DIR\<close>, the network
  (\<open>urlretrieve\<close>: the bytes stored at the destination, or a failure that may leave a
  partial file behind), pdfminer's \<open>extract_text\<close> (\<open>None\<close> when it raises),
  \<open>shutil.which\<close> for the two binaries, \<open>pdftoppm\<close> (the page images in sorted
  order, \<open>None\<close> for a non-zero exit) and \<open>tesseract\<close> (the captured standard
  output of one page, \<open>None\<close> when the process cannot be run). "Unchanged sources"
  is: the same world.
\<close>

record world =
  isalnum :: "nat \<Rightarrow> bool"
  isspace :: "nat \<Rightarrow> bool"
  py_int :: "ustring \<Rightarrow> int option"
  BASE_DIR :: ustring
  urlretrieve :: "ustring \<Rightarrow> retrieval"
  extract_text :: "nat list \<Rightarrow> ustring option"
  which_pdftoppm :: bool
  which_tesseract :: bool
  pdftoppm :: "nat list \<Rightarrow> nat list list option"
  tesseract :: "nat list \<Rightarrow> ustring option"

subsection \<open>\<open>safe_name\<close>\<close>

text \<open>
  \<^verbatim>\<open>re.sub(r"[^\w\u4e00-\u9fff-]+", "_", name).strip("_")[:80]\<close>

  \<open>\w\<close> on a \<open>str\<close> pattern is \<open>ch.isalnum() or ch == '_'\<close>. The character class is
  negated: it matches what is neither a word character, nor in U+4E00..U+9FFF, nor the
  hyphen. \<open>re_sub\<close> scans from the left and replaces each maximal run of matching
  characters (the \<open>+\<close> is greedy) by the replacement.
\<close>

definition is_word :: "world \<Rightarrow> nat \<Rightarrow> bool" where
  "is_word w c = (isalnum w c \<or> c = underscore)"

definition is_cjk :: "nat \<Rightarrow> bool" where
  "is_cjk c = (19968 \<le> c \<and> c \<le> 40959)"

definition unsafe_char :: "world \<Rightarrow> nat \<Rightarrow> bool" where
  "unsafe_char w c = (\<not> (is_word w c \<or> is_cjk c \<or> c = hyphen))"

function re_sub :: "(nat \<Rightarrow> bool) \<Rightarrow> ustring \<Rightarrow> ustring \<Rightarrow> ustring" where
  "re_sub cls repl [] = []"
| "re_sub cls repl (c # cs) =
     (if cls c then repl @ re_sub cls repl (dropWhile cls cs)
      else c # re_sub cls repl cs)"
  by pat_completeness auto
termination
  by (relation "measure (\<lambda>(cls, repl, s). length s)")
     (auto simp: length_dropWhile_le less_Suc_eq_le)

definition strip :: "(nat \<Rightarrow> bool) \<Rightarrow> ustring \<Rightarrow> ustring" where
  "strip chars s = rev (dropWhile chars (rev (dropWhile chars s)))"

text \<open>The three stages of the expression: the substitution, the strip, the truncation.\<close>

definition collapsed :: "world \<Rightarrow> ustring \<Rightarrow> ustring" where
  "collapsed w name = re_sub (unsafe_char w) [underscore] name"

definition trimmed :: "world \<Rightarrow> ustring \<Rightarrow> ustring" where
  "trimmed w name = strip (\<lambda>c. c = underscore) (collapsed w name)"

definition safe_name :: "world \<Rightarrow> ustring \<Rightarrow> ustring" where
  "safe_name w name = take 80 (trimmed w name)"

text \<open>
  A world for evaluating the script on concrete inputs: \<open>isalnum\<close>, \<open>isspace\<close> and
  \<open>int()\<close> agree with Python on ASCII characters and on plain decimal numerals; there
  is no network, the extractor fails and no binary is installed. \<open>serving\<close> is the
  same world with a network that delivers one document and an extractor that reads
  one text from it.
\<close>

definition ascii_alnum :: "nat \<Rightarrow> bool" where
  "ascii_alnum c = ((48 \<le> c \<and> c \<le> 57) \<or> (65 \<le> c \<and> c \<le> 90) \<or> (97 \<le> c \<and> c \<le> 122))"

fun decimal :: "int \<Rightarrow> ustring \<Rightarrow> int option" where
  "decimal acc [] = Some acc"
| "decimal acc (c # cs) =
     (if 48 \<le> c \<and> c \<le> 57 then decimal (10 * acc + int (c - 48)) cs else None)"

definition decimal_int :: "ustring \<Rightarrow> int option" where
  "decimal_int s = (if s = [] then None else decimal 0 s)"

definition ascii_space :: "nat \<Rightarrow> bool" where
  "ascii_space c = (c = 32 \<or> (9 \<le> c \<and> c \<le> 13))"

definition no_retrieval :: "ustring \<Rightarrow> retrieval" where
  "no_retrieval url = RetrievalFailed None"

definition no_text :: "nat list \<Rightarrow> ustring option" where
  "no_text b = None"

definition no_images :: "nat list \<Rightarrow> nat list list option" where
  "no_images b = None"

definition plain_world :: world where
  "plain_world =
     \<lparr>isalnum = ascii_alnum, isspace = ascii_space, py_int = decimal_int,
      BASE_DIR = ustr ''/repo'', urlretrieve = no_retrieval, extract_text = no_text,
      which_pdftoppm = False, which_tesseract = False,
      pdftoppm = no_images, tesseract = no_text\<rparr>"

definition deliver :: "nat list \<Rightarrow> ustring \<Rightarrow> retrieval" where
  "deliver doc url = Retrieved doc"

definition read_as :: "ustring \<Rightarrow> nat list \<Rightarrow> ustring option" where
  "read_as t b = Some t"

definition serving :: "nat list \<Rightarrow> ustring \<Rightarrow> world" where
  "serving doc t = plain_world\<lparr>urlretrieve := deliver doc, extract_text := read_as t\<rparr>"

section \<open>Data model\<close>

text \<open>
  A catalog row is what \<open>csv.DictReader\<close> yields for the columns
  \<open>year, school, subject, download_url\<close>: every value a string. A ledger row is
  \<^verbatim>\<open>{**r, "text_file": ..., "method": ..., "text_len": ...}\<close>, the seven columns
  that \<open>csv.DictWriter\<close> writes and \<open>csv.DictReader\<close> reads back. A CSV file is
  modelled by the list of its rows.
\<close>

record catalog_row =
  year :: ustring
  school :: ustring
  subject :: ustring
  download_url :: ustring

record ledger_row = catalog_row +
  text_file :: ustring
  "method" :: ustring
  text_len :: ustring

definition usable_row :: "catalog_row \<Rightarrow> ustring \<Rightarrow> ustring \<Rightarrow> ustring \<Rightarrow> ledger_row" where
  "usable_row r txt_path m n =
     \<lparr>year = year r, school = school r, subject = subject r,
      download_url = download_url r, text_file = txt_path, method = m, text_len = n\<rparr>"

text \<open>
  The file system: the text artifacts by path (a file that exists but whose
  \<open>read_text\<close> raises is \<open>Unreadable\<close>; otherwise it holds the string that
  \<open>read_text\<close> returns, and \<open>write_text\<close> stores its argument), the downloaded
  documents by path, the ledger files by path, and a log of the calls made to the
  network, to the extractor and to the recognition fallback. The two directory trees
  never share a file: the names end in \<open>.txt\<close> and \<open>.pdf\<close>.
\<close>

datatype text_file = Unreadable | Text ustring

datatype call = Urlretrieve ustring ustring | ExtractText ustring | OcrPdf ustring

record fs =
  texts :: "ustring \<rightharpoonup> text_file"
  pdfs :: "ustring \<rightharpoonup> nat list"
  ledgers :: "ustring \<rightharpoonup> ledger_row list"
  calls :: "call list"

text \<open>The arguments of \<open>process_csv\<close> after the catalog.\<close>

record args =
  out_prefix :: ustring
  limit :: "int option"
  offset :: int
  min_len :: int
  use_ocr :: bool

definition path_join :: "ustring \<Rightarrow> ustring \<Rightarrow> ustring" where
  "path_join d name = d @ ustr ''/'' @ name"

definition exams_dir :: "world \<Rightarrow> ustring" where
  "exams_dir w = path_join (BASE_DIR w) (ustr ''exams'')"

definition pdf_dir :: "world \<Rightarrow> ustring \<Rightarrow> ustring" where
  "pdf_dir w out = path_join (exams_dir w) (ustr ''pdfs_'' @ out)"

definition text_dir :: "world \<Rightarrow> ustring \<Rightarrow> ustring" where
  "text_dir w out = path_join (exams_dir w) (ustr ''texts_'' @ out)"

definition pdf_path :: "world \<Rightarrow> ustring \<Rightarrow> catalog_row \<Rightarrow> ustring" where
  "pdf_path w out r =
     path_join (pdf_dir w out) (year r @ ustr ''_'' @ safe_name w (school r) @ ustr ''.pdf'')"

definition txt_path :: "world \<Rightarrow> ustring \<Rightarrow> catalog_row \<Rightarrow> ustring" where
  "txt_path w out r =
     path_join (text_dir w out) (year r @ ustr ''_'' @ safe_name w (school r) @ ustr ''.txt'')"

definition out_csv :: "world \<Rightarrow> ustring \<Rightarrow> ustring" where
  "out_csv w out = path_join (exams_dir w) (ustr ''usable_'' @ out @ ustr ''.csv'')"

section \<open>The helpers of the script\<close>

text \<open>
  \<open>download_pdf\<close>: nothing is fetched when the destination exists with a non-zero
  size. The second component is the exception that escapes, if any.
\<close>

definition log_call :: "call \<Rightarrow> fs \<Rightarrow> fs" where
  "log_call c s = s\<lparr>calls := calls s @ [c]\<rparr>"

definition retrieve :: "world \<Rightarrow> fs \<Rightarrow> ustring \<Rightarrow> ustring \<Rightarrow> fs \<times> error option" where
  "retrieve w s url dest =
     (let s1 = log_call (Urlretrieve url dest) s in
      case urlretrieve w url of
        Retrieved b \<Rightarrow> (s1\<lparr>pdfs := (pdfs s1)(dest \<mapsto> b)\<rparr>, None)
      | RetrievalFailed None \<Rightarrow> (s1, Some URLError)
      | RetrievalFailed (Some b) \<Rightarrow> (s1\<lparr>pdfs := (pdfs s1)(dest \<mapsto> b)\<rparr>, Some URLError))"

definition download_pdf :: "world \<Rightarrow> fs \<Rightarrow> ustring \<Rightarrow> ustring \<Rightarrow> fs \<times> error option" where
  "download_pdf w s url dest =
     (case pdfs s dest of
        Some b \<Rightarrow> if 0 < length b then (s, None) else retrieve w s url dest
      | None \<Rightarrow> retrieve w s url dest)"

text \<open>\<open>extract_text_pdf\<close>: \<open>extract_text(...) or ""\<close>, and \<open>""\<close> on any exception.\<close>

definition extract_text_pdf :: "world \<Rightarrow> fs \<Rightarrow> ustring \<Rightarrow> ustring" where
  "extract_text_pdf w s p =
     (case pdfs s p of
        None \<Rightarrow> []
      | Some b \<Rightarrow> (case extract_text w b of None \<Rightarrow> [] | Some t \<Rightarrow> t))"

fun join :: "ustring \<Rightarrow> ustring list \<Rightarrow> ustring" where
  "join sep [] = []"
| "join sep [t] = t"
| "join sep (t # u # us) = t @ sep @ join sep (u # us)"

text \<open>
  \<open>ocr_pdf\<close>: \<open>RuntimeError\<close> when a binary is missing, raised before anything else
  and caught nowhere in the function; \<open>check=True\<close> turns a failed rasterization
  into \<open>CalledProcessError\<close>; the pages are joined by a blank line and stripped.
\<close>

definition ocr_pdf :: "world \<Rightarrow> fs \<Rightarrow> ustring \<Rightarrow> error + ustring" where
  "ocr_pdf w s p =
     (if \<not> which_pdftoppm w \<or> \<not> which_tesseract w then Inl RuntimeError
      else case pdfs s p of
        None \<Rightarrow> Inl CalledProcessError
      | Some b \<Rightarrow>
          (case pdftoppm w b of
             None \<Rightarrow> Inl CalledProcessError
           | Some images \<Rightarrow>
               (case those (map (tesseract w) images) of
                  None \<Rightarrow> Inl OSError
                | Some pages \<Rightarrow> Inr (strip (isspace w) (join (ustr ''\<newline>\<newline>'') pages)))))"

section \<open>\<open>process_csv\<close>\<close>

text \<open>
  \<open>list.sort(key=..., reverse=True)\<close>: the keys are computed first (an exception in
  the key function aborts the sort), the sort is stable, and \<open>reverse=True\<close> keeps
  rows with equal keys in their original order: the list is reversed, sorted ascending
  and reversed again.
\<close>

fun keyed :: "('a \<Rightarrow> 'k option) \<Rightarrow> 'a list \<Rightarrow> ('k \<times> 'a) list option" where
  "keyed key [] = Some []"
| "keyed key (x # xs) =
     (case key x of
        None \<Rightarrow> None
      | Some k \<Rightarrow> (case keyed key xs of None \<Rightarrow> None | Some kxs \<Rightarrow> Some ((k, x) # kxs)))"

definition sort_reverse :: "('a \<Rightarrow> ('k::linorder) option) \<Rightarrow> 'a list \<Rightarrow> 'a list option" where
  "sort_reverse key xs =
     (case keyed key xs of
        None \<Rightarrow> None
      | Some kxs \<Rightarrow> Some (map snd (rev (sort_key fst (rev kxs)))))"

text \<open>A slice \<open>xs[start:stop]\<close> with Python's treatment of negative and large bounds.\<close>

definition slice_index :: "nat \<Rightarrow> int \<Rightarrow> nat" where
  "slice_index n i = (if i < 0 then nat (max 0 (int n + i)) else min n (nat i))"

definition slice :: "'a list \<Rightarrow> int \<Rightarrow> int option \<Rightarrow> 'a list" where
  "slice xs start stop =
     (let n = length xs;
          a = slice_index n start;
          b = (case stop of None \<Rightarrow> n | Some j \<Rightarrow> slice_index n j)
      in take (b - a) (drop a xs))"

text \<open>
  Lines 65-66: \<open>rows.sort(key=lambda r: int(r["year"]), reverse=True)\<close> and
  \<open>rows[offset: (offset + limit) if limit else None]\<close>; \<open>if limit\<close> is false for
  \<open>None\<close> and for \<open>0\<close>.
\<close>

definition year_key :: "world \<Rightarrow> 'a catalog_row_scheme \<Rightarrow> int option" where
  "year_key w r = py_int w (year r)"

definition select_rows :: "world \<Rightarrow> args \<Rightarrow> catalog_row list \<Rightarrow> catalog_row list option" where
  "select_rows w a rows =
     (case sort_reverse (year_key w) rows of
        None \<Rightarrow> None
      | Some sorted_rows \<Rightarrow>
          Some (slice sorted_rows (offset a)
                  (case limit a of
                     None \<Rightarrow> None
                   | Some l \<Rightarrow> if l \<noteq> 0 then Some (offset a + l) else None)))"

text \<open>Lines 84-96: the cache probe. \<open>Some cached\<close> is the \<open>continue\<close> branch.\<close>

definition cache_probe :: "fs \<Rightarrow> int \<Rightarrow> ustring \<Rightarrow> ustring option" where
  "cache_probe s m p =
     (case texts s p of
        None \<Rightarrow> None
      | Some Unreadable \<Rightarrow> None
      | Some (Text cached) \<Rightarrow> if m \<le> int (length cached) then Some cached else None)"

text \<open>
  Lines 103-109: extraction and the fallback. \<open>method\<close> becomes \<open>"ocr"\<close> only when
  \<open>ocr_pdf\<close> returns; any exception of the fallback is caught here and leaves the
  empty text.
\<close>

definition recover_text :: "world \<Rightarrow> args \<Rightarrow> fs \<Rightarrow> ustring \<Rightarrow> fs \<times> ustring \<times> ustring" where
  "recover_text w a s p =
     (let text = extract_text_pdf w s p;
          s1 = log_call (ExtractText p) s
      in if int (length text) < min_len a \<and> use_ocr a then
           (case ocr_pdf w s1 p of
              Inr t \<Rightarrow> (log_call (OcrPdf p) s1, t, ustr ''ocr'')
            | Inl e \<Rightarrow> (log_call (OcrPdf p) s1, [], ustr ''pdf''))
         else (s1, text, ustr ''pdf''))"

text \<open>Lines 111-118: the acceptance test, the write of the artifact and the record.\<close>

definition accept :: "args \<Rightarrow> fs \<Rightarrow> catalog_row \<Rightarrow> ustring \<Rightarrow> ustring \<Rightarrow> ustring \<Rightarrow> fs \<times> ledger_row option" where
  "accept a s r p text m =
     (if min_len a \<le> int (length text) then
        (s\<lparr>texts := (texts s)(p \<mapsto> Text text)\<rparr>,
         Some (usable_row r p m (str_of_nat (length text))))
      else (s, None))"

text \<open>The body of the loop over the rows (lines 75-118).\<close>

definition process_entry :: "world \<Rightarrow> args \<Rightarrow> fs \<Rightarrow> catalog_row \<Rightarrow> fs \<times> ledger_row option" where
  "process_entry w a s r =
     (let p = txt_path w (out_prefix a) r in
      case cache_probe s (min_len a) p of
        Some cached \<Rightarrow>
          (s, Some (usable_row r p (ustr ''cached'') (str_of_nat (length cached))))
      | None \<Rightarrow>
          (case download_pdf w s (download_url r) (pdf_path w (out_prefix a) r) of
             (s1, Some e) \<Rightarrow> (s1, None)
           | (s1, None) \<Rightarrow>
               (case recover_text w a s1 (pdf_path w (out_prefix a) r) of
                  (s2, text, m) \<Rightarrow> accept a s2 r p text m)))"

fun process_rows :: "world \<Rightarrow> args \<Rightarrow> fs \<Rightarrow> catalog_row list \<Rightarrow> fs \<times> ledger_row list" where
  "process_rows w a s [] = (s, [])"
| "process_rows w a s (r # rs) =
     (case process_entry w a s r of
        (s1, u) \<Rightarrow>
          (case process_rows w a s1 rs of
             (s2, us) \<Rightarrow> (s2, (case u of None \<Rightarrow> us | Some x \<Rightarrow> x # us))))"

text \<open>
  Lines 120-139. A \<open>dict\<close> keeps its keys in insertion order; assigning to a key
  that is present replaces the value in place, assigning to a new key appends.
\<close>

fun dict_set :: "('k \<times> 'v) list \<Rightarrow> 'k \<Rightarrow> 'v \<Rightarrow> ('k \<times> 'v) list" where
  "dict_set [] k v = [(k, v)]"
| "dict_set ((k', v') # d) k v =
     (if k' = k then (k, v) # d else (k', v') # dict_set d k v)"

definition by_url :: "(ustring \<times> ledger_row) list \<Rightarrow> ledger_row list \<Rightarrow> (ustring \<times> ledger_row) list" where
  "by_url d rows = foldl (\<lambda>d row. dict_set d (download_url row) row) d rows"

definition ledger_key :: "world \<Rightarrow> ledger_row \<Rightarrow> (int \<times> ustring) option" where
  "ledger_key w r = (case py_int w (year r) of None \<Rightarrow> None | Some y \<Rightarrow> Some (y, school r))"

definition merge_ledger :: "world \<Rightarrow> ledger_row list option \<Rightarrow> ledger_row list \<Rightarrow> ledger_row list option" where
  "merge_ledger w old usable =
     (let existing = by_url [] (case old of None \<Rightarrow> [] | Some rows \<Rightarrow> rows);
          merged = map snd (by_url existing usable)
      in sort_reverse (ledger_key w) merged)"

text \<open>
  Lines 120-139 after the loop: the ledger at \<open>out_csv\<close> is read if it exists, merged,
  sorted, and the file is opened for writing and written anew. A \<open>ValueError\<close> of
  \<open>int()\<close> in the sort escapes before the file is opened.
\<close>

definition update_ledger :: "world \<Rightarrow> args \<Rightarrow> fs \<times> ledger_row list \<Rightarrow> fs \<times> error option" where
  "update_ledger w a run =
     (case run of
        (s1, usable) \<Rightarrow>
          (case merge_ledger w (ledgers s1 (out_csv w (out_prefix a))) usable of
             None \<Rightarrow> (s1, Some ValueError)
           | Some merged \<Rightarrow>
               (s1\<lparr>ledgers := (ledgers s1)(out_csv w (out_prefix a) \<mapsto> merged)\<rparr>, None)))"

text \<open>
  The whole run. A \<open>ValueError\<close> in the first sort escapes before anything is done.
\<close>

definition process_csv :: "world \<Rightarrow> catalog_row list \<Rightarrow> args \<Rightarrow> fs \<Rightarrow> fs \<times> error option" where
  "process_csv w catalog a s =
     (case select_rows w a catalog of
        None \<Rightarrow> (s, Some ValueError)
      | Some rows \<Rightarrow> update_ledger w a (process_rows w a s rows))"

section \<open>Concrete inputs\<close>

text \<open>
  The catalog row of the scenarios, an empty file system and the arguments of a run
  with a given threshold, for evaluating the script.
\<close>

definition alpha_row :: catalog_row where
  "alpha_row =
     \<lparr>year = ustr ''2021'', school = ustr ''Alpha High'', subject = ustr ''Math'',
      download_url = ustr ''http://x/a.pdf''\<rparr>"

definition empty_fs :: fs where
  "empty_fs = \<lparr>texts = Map.empty, pdfs = Map.empty, ledgers = Map.empty, calls = []\<rparr>"

definition run_args :: "int \<Rightarrow> bool \<Rightarrow> args" where
  "run_args m ocr =
     \<lparr>out_prefix = ustr ''cc'', limit = None, offset = 0, min_len = m, use_ocr = ocr\<rparr>"


definition beta_row :: catalog_row where
  "beta_row =
     \<lparr>year = ustr ''2020'', school = ustr ''Beta High'', subject = ustr ''Math'',
      download_url = ustr ''http://x/b.pdf''\<rparr>"

text \<open>
  The window as the specification words it, for comparison with \<open>select_rows\<close>: the
  rows of the sorted catalog at the indices \<open>offset\<close> through \<open>offset + limit - 1\<close>,
  all rows from \<open>offset\<close> onward when no limit is given.
\<close>

definition spec_window :: "'a list \<Rightarrow> int \<Rightarrow> int option \<Rightarrow> 'a list" where
  "spec_window xs off lim =
     map (nth xs)
       (filter (\<lambda>i. off \<le> int i \<and> (case lim of None \<Rightarrow> True | Some l \<Rightarrow> int i \<le> off + l - 1))
          [0..<length xs])"

text \<open>
  The invariant of the dictionary \<open>existing\<close>: the keys are distinct and each row is
  stored under its own \<open>download_url\<close>.
\<close>

definition url_keyed :: "(ustring \<times> ledger_row) list \<Rightarrow> bool" where
  "url_keyed d = (distinct (map fst d) \<and> (\<forall>p\<in>set d. download_url (snd p) = fst p))"

text \<open>
  A run over a catalog of two rows, given out of order, in a world where every
  download delivers a document whose text is \<open>hello\<close>, with the threshold 5 and no
  fallback; and the same run repeated on the file system the first one left.
\<close>

definition demo_world :: world where
  "demo_world = serving [1] (ustr ''hello'')"

definition demo_catalog :: "catalog_row list" where
  "demo_catalog = [beta_row, alpha_row]"

definition first_run :: "fs \<times> error option" where
  "first_run = process_csv demo_world demo_catalog (run_args 5 False) empty_fs"

definition second_run :: "fs \<times> error option" where
  "second_run = process_csv demo_world demo_catalog (run_args 5 False) (fst first_run)"

text \<open>The records of the two rows, by method, and the same run with the threshold 6.\<close>

definition alpha_record :: "ustring \<Rightarrow> ledger_row" where
  "alpha_record m =
     usable_row alpha_row (ustr ''/repo/exams/texts_cc/2021_Alpha_High.txt'') m (ustr ''5'')"

definition beta_record :: "ustring \<Rightarrow> ledger_row" where
  "beta_record m =
     usable_row beta_row (ustr ''/repo/exams/texts_cc/2020_Beta_High.txt'') m (ustr ''5'')"

definition rejecting_run :: "fs \<times> error option" where
  "rejecting_run = process_csv demo_world demo_catalog (run_args 6 False) empty_fs"

definition rejecting_rerun :: "fs \<times> error option" where
  "rejecting_rerun = process_csv demo_world demo_catalog (run_args 6 False) (fst rejecting_run)"

(*MORE-DEFS*)

section \<open>Properties of \<open>safe_name\<close>\<close>

lemma re_sub_chars:
  "c \<in> set (re_sub cls repl s) \<Longrightarrow> c \<in> set repl \<or> (c \<in> set s \<and> \<not> cls c)"
proof (induction cls repl s rule: re_sub.induct)
  case (1 cls repl)
  then show ?case by simp
next
  case (2 cls repl d ds)
  show ?case
  proof (cases "cls d")
    case True
    with 2 have "c \<in> set repl \<or> c \<in> set (re_sub cls repl (dropWhile cls ds))" by simp
    with 2 True show ?thesis by (auto dest: set_dropWhileD)
  next
    case False
    with 2 show ?thesis by auto
  qed
qed

lemma re_sub_run:
  assumes "bs \<noteq> []" "\<forall>b\<in>set bs. cls b" "vs = [] \<or> \<not> cls (hd vs)"
  shows "re_sub cls repl (bs @ vs) = repl @ re_sub cls repl vs"
proof -
  from assms(1) obtain b bs' where bs: "bs = b # bs'" by (cases bs) auto
  have "dropWhile cls (bs' @ vs) = dropWhile cls vs"
    using assms(2) bs by (simp add: dropWhile_append2)
  also have "\<dots> = vs" using assms(3) by (cases vs) auto
  finally show ?thesis using assms(2) bs by simp
qed

lemma re_sub_append:
  "us = [] \<or> \<not> cls (last us) \<Longrightarrow>
   re_sub cls repl (us @ xs) = re_sub cls repl us @ re_sub cls repl xs"
proof (induction cls repl us rule: re_sub.induct)
  case (1 cls repl)
  then show ?case by simp
next
  case (2 cls repl c cs)
  show ?case
  proof (cases "cls c")
    case True
    with 2(3) have cs: "cs \<noteq> []" "\<not> cls (last cs)" by (auto split: if_splits)
    then have ex: "\<exists>x\<in>set cs. \<not> cls x" using last_in_set by blast
    then have dw: "dropWhile cls (cs @ xs) = dropWhile cls cs @ xs"
      by (auto simp: dropWhile_append1)
    from ex have ne: "dropWhile cls cs \<noteq> []" by (simp add: dropWhile_eq_Nil_conv)
    have "last (dropWhile cls cs) = last cs"
      using ne by (metis append_Nil2 last_appendR takeWhile_dropWhile_id)
    with cs have "dropWhile cls cs = [] \<or> \<not> cls (last (dropWhile cls cs))" by simp
    from 2(1)[OF True this] True dw show ?thesis by simp
  next
    case False
    with 2 show ?thesis by (cases cs) auto
  qed
qed

lemma set_strip: "set (strip P s) \<subseteq> set s"
proof
  fix x assume "x \<in> set (strip P s)"
  then have "x \<in> set (dropWhile P (rev (dropWhile P s)))" by (simp add: strip_def)
  then have "x \<in> set (rev (dropWhile P s))" by (rule set_dropWhileD)
  then have "x \<in> set (dropWhile P s)" by simp
  then show "x \<in> set s" by (rule set_dropWhileD)
qed

lemma hd_strip: "strip P s \<noteq> [] \<Longrightarrow> \<not> P (hd (strip P s))"
proof -
  assume ne: "strip P s \<noteq> []"
  let ?t = "dropWhile P s"
  from ne have d: "dropWhile P (rev ?t) \<noteq> []" by (simp add: strip_def)
  then have t: "?t \<noteq> []" by (cases "dropWhile P s") simp_all
  have "last (dropWhile P (rev ?t)) = last (rev ?t)"
    using d by (metis append_Nil2 last_appendR takeWhile_dropWhile_id)
  then have "hd (strip P s) = hd ?t"
    using d t by (simp add: strip_def hd_rev last_rev)
  with t show ?thesis by (simp add: hd_dropWhile)
qed

lemma last_strip: "strip P s \<noteq> [] \<Longrightarrow> \<not> P (last (strip P s))"
proof -
  assume ne: "strip P s \<noteq> []"
  let ?t = "dropWhile P s"
  from ne have d: "dropWhile P (rev ?t) \<noteq> []" by (simp add: strip_def)
  then show ?thesis by (simp add: strip_def last_rev hd_dropWhile)
qed

lemma safe_name_chars:
  "c \<in> set (safe_name w name) \<Longrightarrow> is_word w c \<or> is_cjk c \<or> c = hyphen"
proof -
  assume "c \<in> set (safe_name w name)"
  then have "c \<in> set (trimmed w name)"
    unfolding safe_name_def by (rule in_set_takeD)
  then have "c \<in> set (re_sub (unsafe_char w) [underscore] name)"
    unfolding trimmed_def collapsed_def using set_strip by blast
  then have "c = underscore \<or> \<not> unsafe_char w c"
    by (auto dest: re_sub_chars)
  then show ?thesis by (auto simp: unsafe_char_def is_word_def)
qed


lemma collapsed_run:
  assumes "bs \<noteq> []" "\<forall>b\<in>set bs. unsafe_char w b"
    and "us = [] \<or> \<not> unsafe_char w (last us)" "vs = [] \<or> \<not> unsafe_char w (hd vs)"
  shows "collapsed w (us @ bs @ vs) = collapsed w us @ [underscore] @ collapsed w vs"
  unfolding collapsed_def
  using re_sub_append[of us "unsafe_char w" "[underscore]" "bs @ vs"]
    re_sub_run[of bs "unsafe_char w" vs "[underscore]"] assms
  by simp

text \<open>
  Claim C9, as amended. For every label, \<open>safe_name\<close> returns a token of at most 80
  characters, each a word character, a character of U+4E00..U+9FFF or a hyphen (the
  separator \<open>_\<close> is itself a word character); the token has no leading separator,
  and no trailing separator when the trimmed token has at most 80 characters; and the
  substitution replaces each maximal run of other characters by one separator. The
  function is a total, pure function of the label and of the Unicode tables.
\<close>

theorem safe_name_contract:
  "(\<forall>c\<in>set (safe_name w name). is_word w c \<or> is_cjk c \<or> c = hyphen) \<and>
   length (safe_name w name) \<le> 80 \<and>
   (safe_name w name \<noteq> [] \<longrightarrow> hd (safe_name w name) \<noteq> underscore) \<and>
   (safe_name w name \<noteq> [] \<and> length (trimmed w name) \<le> 80 \<longrightarrow>
      last (safe_name w name) \<noteq> underscore) \<and>
   (name = us @ bs @ vs \<and> bs \<noteq> [] \<and> (\<forall>b\<in>set bs. unsafe_char w b) \<and>
    (us = [] \<or> \<not> unsafe_char w (last us)) \<and> (vs = [] \<or> \<not> unsafe_char w (hd vs)) \<longrightarrow>
      collapsed w name = collapsed w us @ [underscore] @ collapsed w vs)"
proof (intro conjI impI ballI)
  fix c assume "c \<in> set (safe_name w name)"
  then show "is_word w c \<or> is_cjk c \<or> c = hyphen" by (rule safe_name_chars)
next
  show "length (safe_name w name) \<le> 80" by (simp add: safe_name_def)
next
  assume ne: "safe_name w name \<noteq> []"
  then have t: "trimmed w name \<noteq> []" by (auto simp: safe_name_def)
  then have "hd (safe_name w name) = hd (trimmed w name)" by (simp add: safe_name_def)
  moreover have "hd (trimmed w name) \<noteq> underscore"
    using t hd_strip[of "\<lambda>c. c = underscore" "collapsed w name"] by (simp add: trimmed_def)
  ultimately show "hd (safe_name w name) \<noteq> underscore" by simp
next
  assume a: "safe_name w name \<noteq> [] \<and> length (trimmed w name) \<le> 80"
  then have t: "trimmed w name \<noteq> []" by (auto simp: safe_name_def)
  from a have "safe_name w name = trimmed w name" by (simp add: safe_name_def)
  moreover have "last (trimmed w name) \<noteq> underscore"
    using t last_strip[of "\<lambda>c. c = underscore" "collapsed w name"] by (simp add: trimmed_def)
  ultimately show "last (safe_name w name) \<noteq> underscore" by simp
next
  assume "name = us @ bs @ vs \<and> bs \<noteq> [] \<and> (\<forall>b\<in>set bs. unsafe_char w b) \<and>
    (us = [] \<or> \<not> unsafe_char w (last us)) \<and> (vs = [] \<or> \<not> unsafe_char w (hd vs))"
  then show "collapsed w name = collapsed w us @ [underscore] @ collapsed w vs"
    using collapsed_run by blast
qed

lemmas safe_name_eval = ustr_def underscore_def hyphen_def is_word_def is_cjk_def unsafe_char_def
  collapsed_def trimmed_def strip_def safe_name_def ascii_alnum_def plain_world_def

theorem safe_name_contract_witness:
  "safe_name plain_world (ustr ''Alpha  High'') = ustr ''Alpha_High'' \<and>
   ustr ''Alpha_High'' \<noteq> [] \<and>
   length (trimmed plain_world (ustr ''Alpha  High'')) \<le> 80 \<and>
   ustr ''Alpha  High'' = ustr ''Alpha'' @ ustr ''  '' @ ustr ''High'' \<and>
   ustr ''  '' \<noteq> [] \<and>
   list_all (unsafe_char plain_world) (ustr ''  '') \<and>
   \<not> unsafe_char plain_world (last (ustr ''Alpha'')) \<and>
   \<not> unsafe_char plain_world (hd (ustr ''High'')) \<and>
   list_all (is_word plain_world) (ustr ''Alpha_High'') \<and>
   hd (ustr ''Alpha_High'') \<noteq> underscore \<and>
   last (ustr ''Alpha_High'') \<noteq> underscore \<and>
   collapsed plain_world (ustr ''Alpha  High'') =
     collapsed plain_world (ustr ''Alpha'') @ [underscore] @ collapsed plain_world (ustr ''High'')"
  using safe_name_contract[of plain_world "ustr ''Alpha  High''" "ustr ''Alpha''" "ustr ''  ''" "ustr ''High''"]
  by (simp add: safe_name_eval)

lemma re_sub_keeps:
  "\<forall>c\<in>set xs. \<not> cls c \<Longrightarrow> re_sub cls repl (xs @ ys) = xs @ re_sub cls repl ys"
  by (induction xs) auto

lemma collapsed_long_label:
  "collapsed plain_world (replicate 79 97 @ ustr '' b'') = replicate 79 97 @ ustr ''_b''"
  unfolding collapsed_def
  by (subst re_sub_keeps) (simp_all add: safe_name_eval)

text \<open>
  Claim C9 as stated fails: the truncation comes after the strip, so a label whose
  trimmed token has a separator as its 80th character yields a token that ends with
  the separator. Here the label is 79 letters \<open>a\<close>, a space and a letter \<open>b\<close>.
\<close>

theorem safe_name_trailing_separator:
  "safe_name plain_world (replicate 79 97 @ ustr '' b'') = replicate 79 97 @ [underscore] \<and>
   last (safe_name plain_world (replicate 79 97 @ ustr '' b'')) = underscore"
  unfolding safe_name_def trimmed_def collapsed_long_label
  by (simp add: strip_def ustr_def underscore_def dropWhile_append1)

section \<open>One entry\<close>

lemma ocr_pdf_log_call [simp]: "ocr_pdf w (log_call c s) p = ocr_pdf w s p"
  by (simp add: ocr_pdf_def log_call_def)

lemma texts_log_call [simp]: "texts (log_call c s) = texts s"
  by (simp add: log_call_def)

lemma calls_log_call [simp]: "calls (log_call c s) = calls s @ [c]"
  by (simp add: log_call_def)

lemma process_entry_extracting:
  assumes "cache_probe s (min_len a) (txt_path w (out_prefix a) r) = None"
    and "download_pdf w s (download_url r) (pdf_path w (out_prefix a) r) = (s1, None)"
  shows "process_entry w a s r =
     (case recover_text w a s1 (pdf_path w (out_prefix a) r) of
        (s2, text, m) \<Rightarrow> accept a s2 r (txt_path w (out_prefix a) r) text m)"
  using assms by (simp add: process_entry_def)



lemmas entry_eval = safe_name_eval serving_def deliver_def read_as_def no_retrieval_def
  no_text_def no_images_def alpha_row_def empty_fs_def run_args_def path_join_def
  exams_dir_def pdf_dir_def text_dir_def pdf_path_def txt_path_def cache_probe_def
  download_pdf_def retrieve_def log_call_def extract_text_pdf_def ocr_pdf_def
  recover_text_def accept_def process_entry_def usable_row_def Let_def str_of_nat.simps


text \<open>
  Claim C7. With the rasterizer or the recognition engine missing, \<open>ocr_pdf\<close> fails
  with \<open>RuntimeError\<close> (the spec's \<open>ToolUnavailable\<close>), which nothing inside
  \<open>ocr_pdf\<close> catches. For an entry whose extracted text is short with the fallback
  enabled, the loop body catches it, continues with the empty text and the method
  \<open>pdf\<close>, and applies the acceptance test to the empty text: the entry is rejected
  and nothing is written.
\<close>

theorem tool_unavailable:
  assumes "\<not> which_pdftoppm w \<or> \<not> which_tesseract w"
    and "cache_probe s (min_len a) (txt_path w (out_prefix a) r) = None"
    and "download_pdf w s (download_url r) (pdf_path w (out_prefix a) r) = (s1, None)"
    and "int (length (extract_text_pdf w s1 (pdf_path w (out_prefix a) r))) < min_len a"
    and "use_ocr a"
    and "s2 = log_call (OcrPdf (pdf_path w (out_prefix a) r))
                (log_call (ExtractText (pdf_path w (out_prefix a) r)) s1)"
  shows "ocr_pdf w s1 (pdf_path w (out_prefix a) r) = Inl RuntimeError \<and>
         recover_text w a s1 (pdf_path w (out_prefix a) r) = (s2, [], ustr ''pdf'') \<and>
         process_entry w a s r = accept a s2 r (txt_path w (out_prefix a) r) [] (ustr ''pdf'') \<and>
         process_entry w a s r = (s2, None)"
proof -
  have o: "ocr_pdf w s1 (pdf_path w (out_prefix a) r) = Inl RuntimeError"
    using assms(1) by (auto simp: ocr_pdf_def)
  have rt: "recover_text w a s1 (pdf_path w (out_prefix a) r) = (s2, [], ustr ''pdf'')"
    using assms(4,5,6) o by (simp add: recover_text_def Let_def)
  have pe: "process_entry w a s r = accept a s2 r (txt_path w (out_prefix a) r) [] (ustr ''pdf'')"
    using assms(2,3) rt by (simp add: process_entry_extracting)
  have "0 < min_len a" using assms(4) by linarith
  then have "accept a s2 r (txt_path w (out_prefix a) r) [] (ustr ''pdf'') = (s2, None)"
    by (simp add: accept_def)
  with o rt pe show ?thesis by simp
qed

theorem tool_unavailable_witness:
  "ocr_pdf (serving [1] (ustr ''hello'')) empty_fs (ustr ''/repo/exams/pdfs_cc/2021_Alpha_High.pdf'')
     = Inl RuntimeError \<and>
   snd (process_entry (serving [1] (ustr ''hello'')) (run_args 1000 True) empty_fs alpha_row) = None \<and>
   texts (fst (process_entry (serving [1] (ustr ''hello'')) (run_args 1000 True) empty_fs alpha_row))
     = Map.empty \<and>
   calls (fst (process_entry (serving [1] (ustr ''hello'')) (run_args 1000 True) empty_fs alpha_row))
     = [Urlretrieve (ustr ''http://x/a.pdf'') (ustr ''/repo/exams/pdfs_cc/2021_Alpha_High.pdf''),
        ExtractText (ustr ''/repo/exams/pdfs_cc/2021_Alpha_High.pdf''),
        OcrPdf (ustr ''/repo/exams/pdfs_cc/2021_Alpha_High.pdf'')]"
proof -
  let ?w = "serving [1] (ustr ''hello'')"
  let ?a = "run_args 1000 True"
  have tools: "\<not> which_pdftoppm ?w \<or> \<not> which_tesseract ?w"
    by (simp add: serving_def plain_world_def)
  have miss: "cache_probe empty_fs (min_len ?a) (txt_path ?w (out_prefix ?a) alpha_row) = None"
    by (simp add: cache_probe_def empty_fs_def)
  have dl: "download_pdf ?w empty_fs (download_url alpha_row)
      (pdf_path ?w (out_prefix ?a) alpha_row) =
      (fst (download_pdf ?w empty_fs (download_url alpha_row)
         (pdf_path ?w (out_prefix ?a) alpha_row)), None)"
    by (simp add: download_pdf_def retrieve_def empty_fs_def serving_def deliver_def Let_def)
  have short: "int (length (extract_text_pdf ?w
      (fst (download_pdf ?w empty_fs (download_url alpha_row)
         (pdf_path ?w (out_prefix ?a) alpha_row)))
      (pdf_path ?w (out_prefix ?a) alpha_row))) < min_len ?a"
    by (simp add: entry_eval)
  have ocr: "use_ocr ?a" by (simp add: run_args_def)
  show ?thesis
    using tool_unavailable[OF tools miss dl short ocr refl]
    by (simp add: entry_eval)
qed

lemma texts_download_pdf: "download_pdf w s url dest = (s1, e) \<Longrightarrow> texts s1 = texts s"
  by (auto simp: download_pdf_def retrieve_def Let_def log_call_def
      split: option.splits if_splits retrieval.splits)

lemma texts_recover_text: "recover_text w a s p = (s2, tx, m) \<Longrightarrow> texts s2 = texts s"
  by (auto simp: recover_text_def Let_def split: if_splits sum.splits)








section \<open>Sorting with a key, in reverse\<close>

lemma keyed_Some_iff:
  "keyed key xs = Some kxs \<longleftrightarrow>
     map snd kxs = xs \<and> (\<forall>p\<in>set kxs. key (snd p) = Some (fst p))"
proof (induction xs arbitrary: kxs)
  case Nil
  then show ?case by auto
next
  case (Cons x xs)
  show ?case
  proof (cases kxs)
    case Nil
    then show ?thesis by (auto split: option.splits)
  next
    case (Cons p ps)
    then show ?thesis
      using Cons.IH[of ps] by (cases p) (auto split: option.splits)
  qed
qed

lemma keyed_None_iff: "keyed key xs = None \<longleftrightarrow> (\<exists>x\<in>set xs. key x = None)"
  by (induction xs) (auto split: option.splits)

lemma sort_reverse_None_iff:
  "sort_reverse key xs = None \<longleftrightarrow> (\<exists>x\<in>set xs. key x = None)"
proof (cases "keyed key xs")
  case None
  then show ?thesis using keyed_None_iff[of key xs] by (simp add: sort_reverse_def)
next
  case (Some kxs)
  then show ?thesis using keyed_None_iff[of key xs] by (simp add: sort_reverse_def)
qed

lemma sort_reverse_keyed:
  assumes "sort_reverse key xs = Some ys"
  shows "\<exists>kxs. keyed key xs = Some kxs \<and> ys = map snd (rev (sort_key fst (rev kxs))) \<and>
           keyed key ys = Some (rev (sort_key fst (rev kxs)))"
proof -
  from assms obtain kxs where k: "keyed key xs = Some kxs"
    and ys: "ys = map snd (rev (sort_key fst (rev kxs)))"
    by (auto simp: sort_reverse_def split: option.splits)
  from k have "\<forall>p\<in>set kxs. key (snd p) = Some (fst p)" by (simp add: keyed_Some_iff)
  then have "keyed key ys = Some (rev (sort_key fst (rev kxs)))"
    using ys by (simp add: keyed_Some_iff)
  with k ys show ?thesis by blast
qed

lemma sort_reverse_sorted:
  assumes "sort_reverse key xs = Some ys"
  shows "\<exists>ks. map key ys = map Some ks \<and> sorted_wrt (\<ge>) ks"
proof -
  from sort_reverse_keyed[OF assms] obtain kxs where
    ys: "ys = map snd (rev (sort_key fst (rev kxs)))"
    and k: "keyed key ys = Some (rev (sort_key fst (rev kxs)))" by blast
  let ?ks = "map fst (rev (sort_key fst (rev kxs)))"
  from k have "\<forall>p\<in>set (rev (sort_key fst (rev kxs))). key (snd p) = Some (fst p)"
    by (simp add: keyed_Some_iff)
  then have "map key ys = map Some ?ks" by (simp add: ys)
  moreover have "sorted (rev ?ks)" by (simp add: rev_map[symmetric])
  then have "sorted_wrt (\<ge>) ?ks" by (simp add: sorted_wrt_rev)
  ultimately show ?thesis by blast
qed

lemma sort_reverse_stable:
  assumes "sort_reverse key xs = Some ys"
  shows "filter (\<lambda>x. key x = Some k) ys = filter (\<lambda>x. key x = Some k) xs"
proof -
  from assms obtain kxs where kx: "keyed key xs = Some kxs"
    and ys: "ys = map snd (rev (sort_key fst (rev kxs)))"
    by (auto simp: sort_reverse_def split: option.splits)
  from kx have xs: "xs = map snd kxs" and c: "\<forall>p\<in>set kxs. key (snd p) = Some (fst p)"
    by (simp_all add: keyed_Some_iff)
  have a: "filter (\<lambda>x. key x = Some k) (map snd ps) = map snd (filter (\<lambda>p. fst p = k) ps)"
    if "\<forall>p\<in>set ps. key (snd p) = Some (fst p)" for ps
    using that by (induction ps) auto
  have "filter (\<lambda>p. fst p = k) (rev (sort_key fst (rev kxs))) = filter (\<lambda>p. fst p = k) kxs"
    by (simp add: rev_filter[symmetric] sort_key_stable)
  then show ?thesis using a[of kxs] a[of "rev (sort_key fst (rev kxs))"] c
    by (simp add: xs ys)
qed

lemma sort_reverse_mset:
  assumes "sort_reverse key xs = Some ys"
  shows "mset ys = mset xs"
proof -
  from assms obtain kxs where kx: "keyed key xs = Some kxs"
    and ys: "ys = map snd (rev (sort_key fst (rev kxs)))"
    by (auto simp: sort_reverse_def split: option.splits)
  from kx have xs: "xs = map snd kxs" by (simp add: keyed_Some_iff)
  have "mset (rev (sort_key fst (rev kxs))) = mset kxs" by simp
  then have "mset (map snd (rev (sort_key fst (rev kxs)))) = mset (map snd kxs)"
    by (simp only: mset_map)
  then show ?thesis by (simp only: xs ys)
qed

lemma sort_reverse_idem:
  assumes "sort_reverse key xs = Some ys"
  shows "sort_reverse key ys = Some ys"
proof -
  from sort_reverse_keyed[OF assms] obtain kxs where
    ys: "ys = map snd (rev (sort_key fst (rev kxs)))"
    and k: "keyed key ys = Some (rev (sort_key fst (rev kxs)))" by blast
  have "sort_key fst (sort_key fst (rev kxs)) = sort_key fst (rev kxs)"
    by (rule sort_key_id_if_sorted) simp
  then show ?thesis using k ys by (simp add: sort_reverse_def)
qed

section \<open>The rows a run processes\<close>

lemma slice_window:
  "0 \<le> off \<Longrightarrow> 0 < l \<Longrightarrow> slice xs off (Some (off + l)) = take (nat l) (drop (nat off) xs)"
  by (auto simp: slice_def slice_index_def Let_def min_def nat_add_distrib)

lemma slice_from: "0 \<le> off \<Longrightarrow> slice xs off None = drop (nat off) xs"
  by (auto simp: slice_def slice_index_def Let_def min_def)

lemma filter_range: "filter (\<lambda>i. a \<le> i \<and> i < b) [0..<n] = [a..<min b n]"
proof (induction n)
  case 0
  then show ?case by simp
next
  case (Suc n)
  show ?case
  proof (cases "a \<le> n \<and> n < b")
    case True
    then have "min b (Suc n) = Suc n" "min b n = n" by simp_all
    with True have "[a..<min b (Suc n)] = [a..<min b n] @ [n]" by simp
    with Suc True show ?thesis by simp
  next
    case False
    then have "[a..<min b (Suc n)] = [a..<min b n]" by (auto simp: min_def)
    with Suc False show ?thesis by auto
  qed
qed

lemma map_nth_range:
  "b \<le> length xs \<Longrightarrow> map (nth xs) [a..<b] = take (b - a) (drop a xs)"
  by (rule nth_equalityI) auto

lemma spec_window_eq:
  assumes "0 \<le> off"
  shows "spec_window xs off lim =
     (case lim of None \<Rightarrow> drop (nat off) xs | Some l \<Rightarrow> take (nat l) (drop (nat off) xs))"
proof (cases lim)
  case None
  have "filter (\<lambda>i. off \<le> int i) [0..<length xs] =
        filter (\<lambda>i. nat off \<le> i \<and> i < length xs) [0..<length xs]"
    using assms by (intro filter_cong) auto
  then show ?thesis using None
    by (simp add: spec_window_def filter_range map_nth_range)
next
  case (Some l)
  have "filter (\<lambda>i. off \<le> int i \<and> int i \<le> off + l - 1) [0..<length xs] =
        filter (\<lambda>i. nat off \<le> i \<and> i < nat (off + l)) [0..<length xs]"
    using assms by (intro filter_cong) auto
  then have "spec_window xs off lim = map (nth xs) [nat off..<min (nat (off + l)) (length xs)]"
    using Some by (simp add: spec_window_def filter_range)
  also have "\<dots> = take (min (nat (off + l)) (length xs) - nat off) (drop (nat off) xs)"
    by (simp add: map_nth_range)
  also have "\<dots> = take (nat l) (drop (nat off) xs)"
    using assms by (cases "0 < l") (auto simp: nat_add_distrib min_def)
  finally show ?thesis using Some by simp
qed


text \<open>
  Claim C8, as amended. For every catalog whose years all convert with \<open>int()\<close>,
  every offset \<open>\<ge> 0\<close> and every limit that is absent or positive: the rows are
  sorted by year, descending, rows of equal year keeping their catalog order; the rows
  processed are those of the sorted catalog at the indices \<open>offset\<close> through
  \<open>offset + limit - 1\<close> (all rows from \<open>offset\<close> onward without a limit); and the
  run is the loop over exactly these rows, in that order, followed by the update of
  the ledger.
\<close>

theorem processing_order:
  assumes "\<forall>r\<in>set catalog. py_int w (year r) \<noteq> None"
    and "0 \<le> offset a"
    and "case limit a of None \<Rightarrow> True | Some l \<Rightarrow> 0 < l"
  shows "\<exists>sorted_rows.
           sort_reverse (year_key w) catalog = Some sorted_rows \<and>
           mset sorted_rows = mset catalog \<and>
           (\<exists>ys. map (year_key w) sorted_rows = map Some ys \<and> sorted_wrt (\<ge>) ys) \<and>
           (\<forall>y. filter (\<lambda>r. year_key w r = Some y) sorted_rows =
                filter (\<lambda>r. year_key w r = Some y) catalog) \<and>
           select_rows w a catalog = Some (spec_window sorted_rows (offset a) (limit a)) \<and>
           spec_window sorted_rows (offset a) (limit a) =
             (case limit a of
                None \<Rightarrow> drop (nat (offset a)) sorted_rows
              | Some l \<Rightarrow> take (nat l) (drop (nat (offset a)) sorted_rows)) \<and>
           process_csv w catalog a s =
             update_ledger w a
               (process_rows w a s (spec_window sorted_rows (offset a) (limit a)))"
proof -
  from assms(1) have "sort_reverse (year_key w) catalog \<noteq> None"
    by (simp add: sort_reverse_None_iff year_key_def)
  then obtain sorted_rows where sr: "sort_reverse (year_key w) catalog = Some sorted_rows"
    by blast
  have win: "spec_window sorted_rows (offset a) (limit a) =
      (case limit a of
         None \<Rightarrow> drop (nat (offset a)) sorted_rows
       | Some l \<Rightarrow> take (nat l) (drop (nat (offset a)) sorted_rows))"
    using assms(2) by (rule spec_window_eq)
  have sel: "select_rows w a catalog = Some (spec_window sorted_rows (offset a) (limit a))"
    using sr assms(2,3) win
    by (auto simp: select_rows_def slice_window slice_from split: option.splits)
  have run: "process_csv w catalog a s =
      update_ledger w a (process_rows w a s (spec_window sorted_rows (offset a) (limit a)))"
    by (simp add: process_csv_def sel)
  show ?thesis
    using sr sort_reverse_mset[OF sr] sort_reverse_sorted[OF sr] sort_reverse_stable[OF sr]
      sel win run
    by (intro exI[of _ sorted_rows] conjI allI) assumption+
qed

lemmas row_eval = ustr_def plain_world_def alpha_row_def beta_row_def run_args_def
  decimal_int_def year_key_def sort_reverse_def select_rows_def slice_def slice_index_def
  spec_window_def Let_def

theorem processing_order_witness:
  "sort_reverse (year_key plain_world) [beta_row, alpha_row] = Some [alpha_row, beta_row] \<and>
   select_rows plain_world ((run_args 5 False)\<lparr>limit := Some 1, offset := 1\<rparr>)
     [beta_row, alpha_row] = Some [beta_row] \<and>
   spec_window [alpha_row, beta_row] 1 (Some 1) = [beta_row]"
proof -
  let ?a = "(run_args 5 False)\<lparr>limit := Some 1, offset := 1\<rparr>"
  have years: "\<forall>r\<in>set [beta_row, alpha_row]. py_int plain_world (year r) \<noteq> None"
    by (simp add: row_eval)
  have off: "0 \<le> offset ?a" by (simp add: run_args_def)
  have lim: "case limit ?a of None \<Rightarrow> True | Some l \<Rightarrow> 0 < l" by (simp add: run_args_def)
  show ?thesis
    using processing_order[OF years off lim, of empty_fs]
    by (simp add: row_eval)
qed

text \<open>
  Claim C8 as stated fails for a negative limit, which the command line accepts: the
  slice \<open>rows[0:-1]\<close> is every row but the last, where the indices \<open>0\<close> through
  \<open>-2\<close> name no row.
\<close>

theorem negative_limit_window:
  "sort_reverse (year_key plain_world) [alpha_row, beta_row] = Some [alpha_row, beta_row] \<and>
   select_rows plain_world ((run_args 5 False)\<lparr>limit := Some (- 1)\<rparr>)
     [alpha_row, beta_row] = Some [alpha_row] \<and>
   spec_window [alpha_row, beta_row] 0 (Some (- 1)) = []"
  by (simp add: row_eval)

section \<open>The ledger as a dictionary\<close>

lemma dict_set_keys:
  "map fst (dict_set d k v) = (if k \<in> set (map fst d) then map fst d else map fst d @ [k])"
  by (induction d) force+

lemma dict_set_fresh: "k \<notin> set (map fst d) \<Longrightarrow> dict_set d k v = d @ [(k, v)]"
  by (induction d) auto

lemma map_of_dict_set: "map_of (dict_set d k v) = (map_of d)(k \<mapsto> v)"
  by (induction d) (auto simp: fun_eq_iff)

lemma distinct_dict_set: "distinct (map fst d) \<Longrightarrow> distinct (map fst (dict_set d k v))"
  by (simp add: dict_set_keys)

lemma set_dict_set: "set (dict_set d k v) \<subseteq> insert (k, v) (set d)"
  by (induction d) (auto split: if_splits)

lemma values_dict_set:
  "distinct (map fst d) \<Longrightarrow>
   mset (map snd (dict_set d k v)) = mset (map snd (filter (\<lambda>p. fst p \<noteq> k) d)) + {#v#}"
proof (induction d)
  case Nil
  then show ?case by simp
next
  case (Cons p d)
  show ?case
  proof (cases "fst p = k")
    case True
    with Cons.prems have "k \<notin> fst ` set d" by auto
    then have "filter (\<lambda>p. fst p \<noteq> k) d = d" by (auto intro: filter_True)
    with True show ?thesis by (cases p) simp
  next
    case False
    with Cons show ?thesis by (cases p) simp
  qed
qed

lemma url_keyed_dict_set: "url_keyed d \<Longrightarrow> url_keyed (dict_set d (download_url u) u)"
  using set_dict_set[of d "download_url u" u]
  by (auto simp: url_keyed_def distinct_dict_set)

lemma url_keyed_by_url: "url_keyed d \<Longrightarrow> url_keyed (by_url d rows)"
  unfolding by_url_def
  by (induction rows arbitrary: d) (simp_all add: url_keyed_dict_set)

lemma url_keyed_Nil: "url_keyed []"
  by (simp add: url_keyed_def)

lemma urls_of_values: "url_keyed d \<Longrightarrow> map download_url (map snd d) = map fst d"
  by (simp add: url_keyed_def)

lemma by_url_append: "by_url d (xs @ ys) = by_url (by_url d xs) ys"
  by (simp add: by_url_def)

lemma by_url_fresh:
  "distinct (map download_url rows) \<Longrightarrow> set (map download_url rows) \<inter> set (map fst d) = {} \<Longrightarrow>
   by_url d rows = d @ map (\<lambda>r. (download_url r, r)) rows"
proof (induction rows arbitrary: d)
  case Nil
  then show ?case by (simp add: by_url_def)
next
  case (Cons r rows)
  from Cons.prems have fresh: "download_url r \<notin> set (map fst d)" by auto
  have "by_url d (r # rows) = by_url (d @ [(download_url r, r)]) rows"
    using dict_set_fresh[OF fresh] by (simp add: by_url_def)
  also have "\<dots> = (d @ [(download_url r, r)]) @ map (\<lambda>r. (download_url r, r)) rows"
    using Cons.prems by (intro Cons.IH) auto
  finally show ?case by simp
qed

lemma set_by_url: "set (map snd (by_url d rows)) \<subseteq> set (map snd d) \<union> set rows"
proof (induction rows arbitrary: d)
  case Nil
  then show ?case by (simp add: by_url_def)
next
  case (Cons r rows)
  have "set (map snd (by_url d (r # rows))) \<subseteq>
        set (map snd (dict_set d (download_url r) r)) \<union> set rows"
    using Cons.IH[of "dict_set d (download_url r) r"] by (simp add: by_url_def)
  moreover have "set (map snd (dict_set d (download_url r) r)) \<subseteq> insert r (set (map snd d))"
    using set_dict_set[of d "download_url r" r] by auto
  ultimately show ?case by auto
qed

section \<open>The ledger a run writes\<close>

lemma merge_ledger_eq:
  "merge_ledger w old usable =
     sort_reverse (ledger_key w)
       (map snd (by_url [] ((case old of None \<Rightarrow> [] | Some rows \<Rightarrow> rows) @ usable)))"
  by (simp add: merge_ledger_def by_url_append Let_def)

lemma merge_ledger_distinct:
  assumes "merge_ledger w old usable = Some rows"
  shows "distinct (map download_url rows)"
proof -
  let ?d = "by_url [] ((case old of None \<Rightarrow> [] | Some rows \<Rightarrow> rows) @ usable)"
  have k: "url_keyed ?d" by (rule url_keyed_by_url[OF url_keyed_Nil])
  from assms have "mset rows = mset (map snd ?d)"
    unfolding merge_ledger_eq by (rule sort_reverse_mset)
  then have "mset (map download_url rows) = mset (map download_url (map snd ?d))"
    by (metis mset_map)
  also have "\<dots> = mset (map fst ?d)" by (simp only: urls_of_values[OF k])
  finally have "distinct (map download_url rows) = distinct (map fst ?d)"
    by (rule mset_eq_imp_distinct_iff)
  with k show ?thesis by (simp add: url_keyed_def)
qed

lemma update_ledger_written:
  assumes "update_ledger w a (s1, usable) = (s', None)"
  shows "\<exists>rows. merge_ledger w (ledgers s1 (out_csv w (out_prefix a))) usable = Some rows \<and>
           s' = s1\<lparr>ledgers := (ledgers s1)(out_csv w (out_prefix a) \<mapsto> rows)\<rparr>"
  using assms by (auto simp: update_ledger_def split: option.splits)

lemma process_csv_written:
  assumes "process_csv w catalog a s = (s', None)"
  shows "\<exists>s1 old usable rows. merge_ledger w old usable = Some rows \<and>
           s' = s1\<lparr>ledgers := (ledgers s1)(out_csv w (out_prefix a) \<mapsto> rows)\<rparr>"
proof -
  from assms obtain window where "update_ledger w a (process_rows w a s window) = (s', None)"
    by (auto simp: process_csv_def split: option.splits)
  then show ?thesis
    using update_ledger_written[of w a "fst (process_rows w a s window)"
        "snd (process_rows w a s window)" s']
    by auto
qed

text \<open>
  Claim C3. Whatever the ledger file held and whatever records the run accepted, the
  rows of the merged ledger have pairwise distinct \<open>download_url\<close>s; so has the
  ledger that a run which completes leaves on disk.
\<close>

theorem ledger_urls_distinct:
  "(merge_ledger w old usable = Some rows \<longrightarrow> distinct (map download_url rows)) \<and>
   (process_csv w catalog a s = (s', None) \<longrightarrow>
      (\<exists>written. ledgers s' (out_csv w (out_prefix a)) = Some written \<and>
         distinct (map download_url written)))"
proof (intro conjI impI)
  assume "merge_ledger w old usable = Some rows"
  then show "distinct (map download_url rows)" by (rule merge_ledger_distinct)
next
  assume "process_csv w catalog a s = (s', None)"
  from process_csv_written[OF this] obtain s1 old' usable' rows' where
    m: "merge_ledger w old' usable' = Some rows'"
    and s': "s' = s1\<lparr>ledgers := (ledgers s1)(out_csv w (out_prefix a) \<mapsto> rows')\<rparr>"
    by blast
  from s' have "ledgers s' (out_csv w (out_prefix a)) = Some rows'" by simp
  with merge_ledger_distinct[OF m]
  show "\<exists>written. ledgers s' (out_csv w (out_prefix a)) = Some written \<and>
         distinct (map download_url written)" by blast
qed

lemma ledger_key_Some:
  "ledger_key w r = Some k \<longleftrightarrow> py_int w (year r) = Some (fst k) \<and> school r = snd k"
  by (cases k) (auto simp: ledger_key_def split: option.splits)

lemma merge_ledger_sorted:
  assumes "merge_ledger w old usable = Some rows"
  shows "sorted_wrt (\<lambda>r r'. \<exists>y y'. py_int w (year r) = Some y \<and> py_int w (year r') = Some y' \<and>
            (y' < y \<or> (y' = y \<and> school r' \<le> school r))) rows"
proof -
  from assms obtain ks where ks: "map (ledger_key w) rows = map Some ks" and s: "sorted_wrt (\<ge>) ks"
    unfolding merge_ledger_eq using sort_reverse_sorted by blast
  from ks have len: "length ks = length rows" by (metis length_map)
  have key: "py_int w (year (rows ! i)) = Some (fst (ks ! i)) \<and> school (rows ! i) = snd (ks ! i)"
    if "i < length rows" for i
  proof -
    from that len have "ledger_key w (rows ! i) = Some (ks ! i)"
      using ks by (metis nth_map)
    then show ?thesis by (simp add: ledger_key_Some)
  qed
  show ?thesis
    unfolding sorted_wrt_iff_nth_less
  proof (intro allI impI)
    fix i j assume ij: "i < j" "j < length rows"
    then have "ks ! j \<le> ks ! i" using s len by (simp add: sorted_wrt_iff_nth_less)
    then have "fst (ks ! j) < fst (ks ! i) \<or>
        (fst (ks ! j) = fst (ks ! i) \<and> snd (ks ! j) \<le> snd (ks ! i))"
      by (auto simp: less_eq_prod_def)
    with key[of i] key[of j] ij
    show "\<exists>y y'. py_int w (year (rows ! i)) = Some y \<and> py_int w (year (rows ! j)) = Some y' \<and>
            (y' < y \<or> (y' = y \<and> school (rows ! j) \<le> school (rows ! i)))"
      by auto
  qed
qed

text \<open>
  Claim C4. In the merged ledger, and so in the ledger that a run which completes
  leaves on disk, every row is followed only by rows of a smaller year, or of the same
  year and a school that is not greater (years compared as integers, schools as
  strings).
\<close>

theorem ledger_ordering:
  "(merge_ledger w old usable = Some rows \<longrightarrow>
      sorted_wrt (\<lambda>r r'. \<exists>y y'. py_int w (year r) = Some y \<and> py_int w (year r') = Some y' \<and>
            (y' < y \<or> (y' = y \<and> school r' \<le> school r))) rows) \<and>
   (process_csv w catalog a s = (s', None) \<longrightarrow>
      (\<exists>written. ledgers s' (out_csv w (out_prefix a)) = Some written \<and>
         sorted_wrt (\<lambda>r r'. \<exists>y y'. py_int w (year r) = Some y \<and> py_int w (year r') = Some y' \<and>
            (y' < y \<or> (y' = y \<and> school r' \<le> school r))) written))"
proof (intro conjI impI)
  assume "merge_ledger w old usable = Some rows"
  then show "sorted_wrt (\<lambda>r r'. \<exists>y y'. py_int w (year r) = Some y \<and> py_int w (year r') = Some y' \<and>
            (y' < y \<or> (y' = y \<and> school r' \<le> school r))) rows"
    by (rule merge_ledger_sorted)
next
  assume "process_csv w catalog a s = (s', None)"
  from process_csv_written[OF this] obtain s1 old' usable' rows' where
    m: "merge_ledger w old' usable' = Some rows'"
    and s': "s' = s1\<lparr>ledgers := (ledgers s1)(out_csv w (out_prefix a) \<mapsto> rows')\<rparr>"
    by blast
  from s' have "ledgers s' (out_csv w (out_prefix a)) = Some rows'" by simp
  with merge_ledger_sorted[OF m]
  show "\<exists>written. ledgers s' (out_csv w (out_prefix a)) = Some written \<and>
         sorted_wrt (\<lambda>r r'. \<exists>y y'. py_int w (year r) = Some y \<and> py_int w (year r') = Some y' \<and>
            (y' < y \<or> (y' = y \<and> school r' \<le> school r))) written" by blast
qed

section \<open>Cache hits\<close>

lemma process_entry_cached:
  assumes "cache_probe s (min_len a) (txt_path w (out_prefix a) r) = Some c"
  shows "process_entry w a s r =
     (s, Some (usable_row r (txt_path w (out_prefix a) r) (ustr ''cached'') (str_of_nat (length c))))"
  using assms by (simp add: process_entry_def)

lemma cache_probe_texts: "texts s' = texts s \<Longrightarrow> cache_probe s' m p = cache_probe s m p"
  by (simp add: cache_probe_def)

lemma accept_result:
  "accept a s r p t m = (s', res) \<Longrightarrow>
     (res = None \<and> s' = s) \<or>
     (res = Some (usable_row r p m (str_of_nat (length t))) \<and> min_len a \<le> int (length t) \<and>
      s' = s\<lparr>texts := (texts s)(p \<mapsto> Text t)\<rparr>)"
  by (auto simp: accept_def split: if_splits)

lemma process_entry_cases:
  assumes "process_entry w a s r = (s', res)"
  shows "(\<exists>c. cache_probe s (min_len a) (txt_path w (out_prefix a) r) = Some c \<and> s' = s \<and>
            res = Some (usable_row r (txt_path w (out_prefix a) r) (ustr ''cached'')
                    (str_of_nat (length c)))) \<or>
         (cache_probe s (min_len a) (txt_path w (out_prefix a) r) = None \<and> res = None \<and>
            texts s' = texts s) \<or>
         (cache_probe s (min_len a) (txt_path w (out_prefix a) r) = None \<and>
            (\<exists>t m. res = Some (usable_row r (txt_path w (out_prefix a) r) m (str_of_nat (length t))) \<and>
               min_len a \<le> int (length t) \<and>
               texts s' = (texts s)(txt_path w (out_prefix a) r \<mapsto> Text t)))"
proof (cases "cache_probe s (min_len a) (txt_path w (out_prefix a) r)")
  case (Some c)
  with assms show ?thesis by (simp add: process_entry_cached)
next
  case None
  obtain s1 e where dl: "download_pdf w s (download_url r) (pdf_path w (out_prefix a) r) = (s1, e)"
    by (cases "download_pdf w s (download_url r) (pdf_path w (out_prefix a) r)")
  have t1: "texts s1 = texts s" by (rule texts_download_pdf[OF dl])
  show ?thesis
  proof (cases e)
    case (Some err)
    with None dl assms t1 show ?thesis by (auto simp: process_entry_def)
  next
    case e: None
    obtain s2 tx m where rt: "recover_text w a s1 (pdf_path w (out_prefix a) r) = (s2, tx, m)"
      by (cases "recover_text w a s1 (pdf_path w (out_prefix a) r)")
    have t2: "texts s2 = texts s" using texts_recover_text[OF rt] t1 by simp
    from None dl e rt assms
    have "accept a s2 r (txt_path w (out_prefix a) r) tx m = (s', res)"
      by (simp add: process_entry_def)
    from accept_result[OF this] None t2 show ?thesis by auto
  qed
qed

lemma cache_probe_preserved:
  assumes "cache_probe s (min_len a) p = Some c"
  shows "cache_probe (fst (process_entry w a s r)) (min_len a) p = Some c"
proof -
  obtain s' res where pe: "process_entry w a s r = (s', res)"
    by (cases "process_entry w a s r")
  from process_entry_cases[OF pe] assms have "cache_probe s' (min_len a) p = Some c"
    by (auto simp: cache_probe_def split: option.splits text_file.splits if_splits)
  with pe show ?thesis by simp
qed

lemma process_rows_Cons:
  "process_rows w a s (r # rs) =
     (fst (process_rows w a (fst (process_entry w a s r)) rs),
      (case snd (process_entry w a s r) of None \<Rightarrow> [] | Some x \<Rightarrow> [x]) @
      snd (process_rows w a (fst (process_entry w a s r)) rs))"
  by (simp split: prod.splits option.splits)

declare process_rows.simps(2) [simp del]

lemma cache_probe_process_rows:
  assumes "cache_probe s (min_len a) p = Some c"
  shows "cache_probe (fst (process_rows w a s rows)) (min_len a) p = Some c"
  using assms
proof (induction rows arbitrary: s)
  case Nil
  then show ?case by simp
next
  case (Cons r rows)
  from cache_probe_preserved[OF Cons.prems, of w r]
  have "cache_probe (fst (process_rows w a (fst (process_entry w a s r)) rows)) (min_len a) p = Some c"
    by (rule Cons.IH)
  then show ?case by (simp add: process_rows_Cons)
qed

lemma hit_gets_cached_record:
  assumes "cache_probe s (min_len a) (txt_path w (out_prefix a) r) = Some c" and "r \<in> set rows"
  shows "usable_row r (txt_path w (out_prefix a) r) (ustr ''cached'') (str_of_nat (length c))
           \<in> set (snd (process_rows w a s rows))"
  using assms
proof (induction rows arbitrary: s)
  case Nil
  then show ?case by simp
next
  case (Cons x rows)
  show ?case
  proof (cases "x = r")
    case True
    then show ?thesis
      using process_entry_cached[OF Cons.prems(1)] by (simp add: process_rows_Cons)
  next
    case False
    with Cons.prems have "r \<in> set rows" by simp
    from Cons.IH[OF cache_probe_preserved[OF Cons.prems(1), of w x] this]
    show ?thesis by (simp add: process_rows_Cons)
  qed
qed

lemma accepted_are_hits:
  "\<forall>u\<in>set (snd (process_rows w a s rows)).
     \<exists>r\<in>set rows. \<exists>m n. u = usable_row r (txt_path w (out_prefix a) r) m n \<and>
       (\<exists>c. cache_probe (fst (process_rows w a s rows)) (min_len a)
               (txt_path w (out_prefix a) r) = Some c)"
proof (induction rows arbitrary: s)
  case Nil
  then show ?case by simp
next
  case (Cons x rows)
  obtain s' res where pe: "process_entry w a s x = (s', res)"
    by (cases "process_entry w a s x")
  show ?case
  proof
    fix u assume "u \<in> set (snd (process_rows w a s (x # rows)))"
    then consider "res = Some u" | "u \<in> set (snd (process_rows w a s' rows))"
      using pe by (auto simp: process_rows_Cons split: option.splits)
    then show "\<exists>r\<in>set (x # rows). \<exists>m n. u = usable_row r (txt_path w (out_prefix a) r) m n \<and>
       (\<exists>c. cache_probe (fst (process_rows w a s (x # rows))) (min_len a)
               (txt_path w (out_prefix a) r) = Some c)"
    proof cases
      case 1
      with process_entry_cases[OF pe] obtain m n c where
        u: "u = usable_row x (txt_path w (out_prefix a) x) m n"
        and h: "cache_probe s' (min_len a) (txt_path w (out_prefix a) x) = Some c"
        by (auto simp: cache_probe_def)
      from cache_probe_process_rows[OF h, of w rows] pe
      have "cache_probe (fst (process_rows w a s (x # rows))) (min_len a)
              (txt_path w (out_prefix a) x) = Some c"
        by (simp add: process_rows_Cons)
      with u show ?thesis by auto
    next
      case 2
      with Cons.IH[of s'] pe show ?thesis by (auto simp: process_rows_Cons)
    qed
  qed
qed

lemma all_hits_run:
  assumes "\<forall>r\<in>set rows. cache_probe s (min_len a) (txt_path w (out_prefix a) r) \<noteq> None"
  shows "fst (process_rows w a s rows) = s \<and>
         (\<forall>u\<in>set (snd (process_rows w a s rows)). method u = ustr ''cached'')"
  using assms
proof (induction rows)
  case Nil
  show ?case by simp
next
  case (Cons x rows)
  from Cons.prems obtain c where
    h: "cache_probe s (min_len a) (txt_path w (out_prefix a) x) = Some c" by auto
  from Cons have "fst (process_rows w a s rows) = s \<and>
         (\<forall>u\<in>set (snd (process_rows w a s rows)). method u = ustr ''cached'')" by simp
  then show ?case using process_entry_cached[OF h]
    by (simp add: process_rows_Cons usable_row_def)
qed

section \<open>Merging twice\<close>

lemma map_of_by_url:
  "map_of (by_url d us) = map_of d ++ map_of (rev (map (\<lambda>u. (download_url u, u)) us))"
proof (induction us arbitrary: d)
  case Nil
  then show ?case by (simp add: by_url_def)
next
  case (Cons u us)
  have "map_of (by_url d (u # us)) = map_of (by_url (dict_set d (download_url u) u) us)"
    by (simp add: by_url_def)
  also have "\<dots> = (map_of d)(download_url u \<mapsto> u) ++ map_of (rev (map (\<lambda>u. (download_url u, u)) us))"
    by (simp only: Cons.IH map_of_dict_set)
  also have "\<dots> = map_of d ++ map_of (rev (map (\<lambda>u. (download_url u, u)) (u # us)))"
    by (simp add: map_add_upd_left fun_eq_iff map_add_def split: option.splits)
  finally show ?case .
qed

lemma keys_by_url_set:
  "set (map fst (by_url d us)) = set (map fst d) \<union> set (map download_url us)"
proof (induction us arbitrary: d)
  case Nil
  then show ?case by (simp add: by_url_def)
next
  case (Cons u us)
  have "set (map fst (by_url d (u # us))) =
        set (map fst (dict_set d (download_url u) u)) \<union> set (map download_url us)"
    using Cons.IH[of "dict_set d (download_url u) u"] by (simp add: by_url_def)
  then show ?case by (auto simp: dict_set_keys split: if_splits)
qed

lemma keys_by_url_same:
  "set (map download_url us) \<subseteq> set (map fst d) \<Longrightarrow> map fst (by_url d us) = map fst d"
proof (induction us arbitrary: d)
  case Nil
  then show ?case by (simp add: by_url_def)
next
  case (Cons u us)
  from Cons.prems have k: "map fst (dict_set d (download_url u) u) = map fst d"
    by (simp add: dict_set_keys)
  with Cons.prems have "map fst (by_url (dict_set d (download_url u) u) us) = map fst d"
    using Cons.IH[of "dict_set d (download_url u) u"] by simp
  then show ?case by (simp add: by_url_def)
qed

lemma alist_repr:
  "distinct (map fst d) \<Longrightarrow> map (\<lambda>k. (k, the (map_of d k))) (map fst d) = d"
proof (induction d)
  case Nil
  then show ?case by simp
next
  case (Cons p d)
  have "map (\<lambda>k. (k, the (map_of (p # d) k))) (map fst d) =
        map (\<lambda>k. (k, the (map_of d k))) (map fst d)"
    using Cons.prems by (intro map_cong refl) (force simp: image_iff)
  with Cons show ?case by simp
qed

lemma alist_eqI:
  assumes "map fst d = map fst e" "map_of d = map_of e" "distinct (map fst d)"
  shows "d = e"
proof -
  have "d = map (\<lambda>k. (k, the (map_of d k))) (map fst d)"
    using alist_repr[OF assms(3)] by (rule sym)
  also have "\<dots> = map (\<lambda>k. (k, the (map_of e k))) (map fst e)"
    by (simp only: assms(1,2))
  also have "\<dots> = e"
    using assms(1,3) by (intro alist_repr) (simp only:)
  finally show ?thesis .
qed

lemma url_keyed_pairs: "url_keyed d \<Longrightarrow> map (\<lambda>r. (download_url r, r)) (map snd d) = d"
  by (induction d) (auto simp: url_keyed_def)

lemma merge_ledger_idem:
  assumes "merge_ledger w old us = Some ledger"
  shows "merge_ledger w (Some ledger) us = Some ledger"
proof -
  let ?pair = "\<lambda>r. (download_url r, r)"
  let ?old = "case old of None \<Rightarrow> [] | Some rows \<Rightarrow> rows"
  let ?d1 = "by_url [] (?old @ us)"
  let ?e = "map ?pair ledger"
  let ?m = "map_of (rev (map ?pair us))"
  have k1: "url_keyed ?d1" by (rule url_keyed_by_url[OF url_keyed_Nil])
  from assms have sr: "sort_reverse (ledger_key w) (map snd ?d1) = Some ledger"
    by (simp only: merge_ledger_eq)
  have ms: "mset ledger = mset (map snd ?d1)" by (rule sort_reverse_mset[OF sr])
  have dist: "distinct (map download_url ledger)" by (rule merge_ledger_distinct[OF assms])
  have e0: "by_url [] ledger = ?e" using by_url_fresh[OF dist, of "[]"] by simp
  have "mset ?e = mset (map ?pair (map snd ?d1))"
    using arg_cong[OF ms, of "image_mset ?pair"] by (simp only: mset_map)
  then have "mset ?e = mset ?d1" by (simp only: url_keyed_pairs[OF k1])
  then have sets: "set ?e = set ?d1" by (rule mset_eq_setD)
  have "map fst ?e = map download_url ledger" by (simp add: comp_def)
  with dist have de: "distinct (map fst ?e)" by (simp only:)
  from k1 have d1: "distinct (map fst ?d1)" by (simp add: url_keyed_def)
  have mo: "map_of ?e = map_of ?d1"
    using sets by (simp only: map_of_inject_set[OF de d1])
  have "set (map download_url us) \<subseteq> set (map fst ?d1)"
    unfolding keys_by_url_set by simp
  also have "set (map fst ?d1) = set (map fst ?e)"
    using arg_cong[OF sets, of "image fst"] by (simp only: set_map)
  finally have sub: "set (map download_url us) \<subseteq> set (map fst ?e)" .
  have keys: "map fst (by_url ?e us) = map fst ?e" by (rule keys_by_url_same[OF sub])
  have "by_url [] (?old @ us) = by_url (by_url [] ?old) us" by (rule by_url_append)
  then have "map_of ?d1 = map_of (by_url [] ?old) ++ ?m"
    by (simp only: map_of_by_url[of "by_url [] ?old" us])
  then have "map_of ?d1 ++ ?m = (map_of (by_url [] ?old) ++ ?m) ++ ?m" by (rule arg_cong)
  also have "\<dots> = map_of (by_url [] ?old) ++ ?m"
    by (simp add: map_add_def fun_eq_iff split: option.splits)
  also have "\<dots> = map_of ?d1"
    using \<open>map_of ?d1 = map_of (by_url [] ?old) ++ ?m\<close> by (rule sym)
  finally have idem: "map_of ?d1 ++ ?m = map_of ?d1" .
  have "map_of (by_url ?e us) = map_of ?e ++ ?m" by (rule map_of_by_url)
  also have "\<dots> = map_of ?e" using idem by (simp only: mo)
  finally have "map_of (by_url ?e us) = map_of ?e" .
  with keys have "by_url ?e us = ?e"
  proof (rule alist_eqI)
    show "distinct (map fst (by_url ?e us))" using de by (simp only: keys)
  qed
  then have "by_url (by_url [] ledger) us = ?e" by (simp only: e0)
  then have "map snd (by_url (by_url [] ledger) us) = map snd ?e" by (rule arg_cong)
  also have "map snd ?e = ledger" by (simp add: comp_def)
  finally have "map snd (by_url (by_url [] ledger) us) = ledger" .
  then show ?thesis
    using sort_reverse_idem[OF sr] by (simp add: merge_ledger_def Let_def)
qed

section \<open>Merging one record, and the rewrite of the ledger\<close>

lemma length_filter_other:
  "distinct (map f xs) \<Longrightarrow> k \<in> set (map f xs) \<Longrightarrow>
   Suc (length (filter (\<lambda>x. f x \<noteq> k) xs)) = length xs"
proof (induction xs)
  case Nil
  then show ?case by simp
next
  case (Cons x xs)
  show ?case
  proof (cases "f x = k")
    case True
    with Cons.prems have "k \<notin> f ` set xs" by auto
    then have "filter (\<lambda>x. f x \<noteq> k) xs = xs" by (auto intro: filter_True)
    with True show ?thesis by simp
  next
    case False
    with Cons show ?thesis by auto
  qed
qed

lemma merge_ledger_total:
  assumes "\<forall>r\<in>set (case old of None \<Rightarrow> [] | Some rows \<Rightarrow> rows) \<union> set usable.
             py_int w (year r) \<noteq> None"
  shows "\<exists>merged. merge_ledger w old usable = Some merged"
proof -
  let ?rows = "(case old of None \<Rightarrow> [] | Some rows \<Rightarrow> rows) @ usable"
  have "set (map snd (by_url [] ?rows)) \<subseteq> set ?rows"
    using set_by_url[of "[]" ?rows] by simp
  with assms have "\<forall>r\<in>set (map snd (by_url [] ?rows)). ledger_key w r \<noteq> None"
    by (auto simp: ledger_key_def split: option.splits)
  then have "sort_reverse (ledger_key w) (map snd (by_url [] ?rows)) \<noteq> None"
    by (simp only: sort_reverse_None_iff) blast
  then show ?thesis by (auto simp: merge_ledger_eq)
qed

lemma merge_one_mset:
  assumes "distinct (map download_url old)" and "merge_ledger w (Some old) [u] = Some new"
  shows "mset new = mset (filter (\<lambda>r. download_url r \<noteq> download_url u) old) + {#u#}"
proof -
  let ?pair = "\<lambda>r. (download_url r, r)"
  have d0: "by_url [] old = map ?pair old" using by_url_fresh[OF assms(1), of "[]"] by simp
  have dk: "distinct (map fst (map ?pair old))" using assms(1) by (simp add: comp_def)
  have "by_url [] (old @ [u]) = dict_set (map ?pair old) (download_url u) u"
    by (simp add: by_url_append d0) (simp add: by_url_def)
  with assms(2) have "sort_reverse (ledger_key w)
      (map snd (dict_set (map ?pair old) (download_url u) u)) = Some new"
    by (simp add: merge_ledger_eq)
  then have "mset new = mset (map snd (dict_set (map ?pair old) (download_url u) u))"
    by (rule sort_reverse_mset)
  also have "\<dots> = mset (map snd (filter (\<lambda>p. fst p \<noteq> download_url u) (map ?pair old))) + {#u#}"
    by (rule values_dict_set[OF dk])
  also have "map snd (filter (\<lambda>p. fst p \<noteq> download_url u) (map ?pair old)) =
      filter (\<lambda>r. download_url r \<noteq> download_url u) old"
    by (simp add: filter_map comp_def)
  finally show ?thesis .
qed

text \<open>
  Claim C2. For a ledger with one row per \<open>download_url\<close> (the invariant of the
  ledger) whose years convert with \<open>int()\<close>, merging one record succeeds; the merged
  ledger holds the record and the old rows of every other \<open>download_url\<close>. For an
  unseen \<open>download_url\<close> the row count grows by exactly one; for one that occurs it is
  unchanged, and the row of that \<open>download_url\<close> has the \<open>method\<close> and the
  \<open>text_len\<close> of the new record.
\<close>

theorem merge_monotonicity:
  assumes "distinct (map download_url old)"
    and "\<forall>r\<in>set (u # old). py_int w (year r) \<noteq> None"
  shows "\<exists>new. merge_ledger w (Some old) [u] = Some new \<and>
           mset new = mset (filter (\<lambda>r. download_url r \<noteq> download_url u) old) + {#u#} \<and>
           (download_url u \<notin> set (map download_url old) \<longrightarrow> length new = length old + 1) \<and>
           (download_url u \<in> set (map download_url old) \<longrightarrow>
              length new = length old \<and>
              (\<forall>r\<in>set new. download_url r = download_url u \<longrightarrow>
                 method r = method u \<and> text_len r = text_len u))"
proof -
  from assms(2) have "\<forall>r\<in>set (case Some old of None \<Rightarrow> [] | Some rows \<Rightarrow> rows) \<union> set [u].
      py_int w (year r) \<noteq> None" by simp
  from merge_ledger_total[OF this] obtain new where
    new: "merge_ledger w (Some old) [u] = Some new" by blast
  have ms: "mset new = mset (filter (\<lambda>r. download_url r \<noteq> download_url u) old) + {#u#}"
    by (rule merge_one_mset[OF assms(1) new])
  then have "mset new = mset (filter (\<lambda>r. download_url r \<noteq> download_url u) old @ [u])"
    by simp
  then have "length new = length (filter (\<lambda>r. download_url r \<noteq> download_url u) old @ [u])"
    by (rule mset_eq_length)
  then have len: "length new = Suc (length (filter (\<lambda>r. download_url r \<noteq> download_url u) old))"
    by simp
  have fresh: "length new = length old + 1" if "download_url u \<notin> set (map download_url old)"
  proof -
    have "\<forall>r\<in>set old. download_url r \<noteq> download_url u"
    proof (intro ballI notI)
      fix r assume r: "r \<in> set old" and e: "download_url r = download_url u"
      from r have "download_url r \<in> set (map download_url old)" by simp
      with e that show False by simp
    qed
    then have "filter (\<lambda>r. download_url r \<noteq> download_url u) old = old"
      by (rule filter_True)
    with len show ?thesis by simp
  qed
  have seen: "length new = length old" if "download_url u \<in> set (map download_url old)"
    using len length_filter_other[OF assms(1) that] by simp
  have same: "r = u" if "r \<in> set new" "download_url r = download_url u" for r
  proof -
    from that(1) have "r \<in># mset new" by simp
    with ms that(2) show ?thesis by auto
  qed
  show ?thesis
    using new ms fresh seen same by (intro exI[of _ new]) auto
qed

lemma ledgers_process_entry: "ledgers (fst (process_entry w a s r)) = ledgers s"
  by (auto simp: process_entry_def download_pdf_def retrieve_def recover_text_def accept_def
      log_call_def Let_def split: option.splits prod.splits retrieval.splits sum.splits if_splits)

lemma ledgers_process_rows: "ledgers (fst (process_rows w a s rows)) = ledgers s"
  by (induction rows arbitrary: s) (simp_all add: process_rows_Cons ledgers_process_entry)

lemma set_slice: "set (slice xs i j) \<subseteq> set xs"
  unfolding slice_def Let_def by (meson in_set_dropD in_set_takeD subsetI)

lemma select_rows_subset:
  assumes "select_rows w a catalog = Some rows"
  shows "\<forall>r\<in>set rows. r \<in> set catalog \<and> py_int w (year r) \<noteq> None"
proof -
  from assms obtain sorted_rows stop where
    sr: "sort_reverse (year_key w) catalog = Some sorted_rows"
    and "rows = slice sorted_rows (offset a) stop"
    by (auto simp: select_rows_def split: option.splits)
  then have "set rows \<subseteq> set sorted_rows" by (simp add: set_slice)
  moreover note sr
  moreover have "set sorted_rows = set catalog"
    using sort_reverse_mset[OF sr] by (rule mset_eq_setD)
  moreover have "\<forall>r\<in>set catalog. year_key w r \<noteq> None"
    using sr sort_reverse_None_iff[of "year_key w" catalog] by simp
  ultimately show ?thesis by (auto simp: year_key_def)
qed

text \<open>
  Claim C10. A run whose first sort succeeds reaches the update of the ledger, and,
  the years of the rows on file converting with \<open>int()\<close> (as do those of every ledger
  the script wrote), it replaces the ledger file by the merged, sorted rows. With no
  record accepted, the file is still written: it then holds the rows read from it,
  one per \<open>download_url\<close>, sorted anew (no row at all when there was no file).
\<close>

theorem ledger_rewritten:
  assumes "select_rows w a catalog = Some rows"
    and "\<forall>r\<in>set (case ledgers s (out_csv w (out_prefix a)) of None \<Rightarrow> [] | Some old \<Rightarrow> old).
           py_int w (year r) \<noteq> None"
  shows "\<exists>s1 usable merged.
           process_rows w a s rows = (s1, usable) \<and>
           merge_ledger w (ledgers s (out_csv w (out_prefix a))) usable = Some merged \<and>
           process_csv w catalog a s =
             (s1\<lparr>ledgers := (ledgers s1)(out_csv w (out_prefix a) \<mapsto> merged)\<rparr>, None) \<and>
           (usable = [] \<longrightarrow>
              sort_reverse (ledger_key w)
                (map snd (by_url []
                   (case ledgers s (out_csv w (out_prefix a)) of None \<Rightarrow> [] | Some old \<Rightarrow> old))) =
              Some merged)"
proof -
  obtain s1 usable where pr: "process_rows w a s rows = (s1, usable)"
    by (cases "process_rows w a s rows")
  have l1: "ledgers s1 = ledgers s" using ledgers_process_rows[of w a s rows] pr by simp
  have "\<forall>u\<in>set usable. py_int w (year u) \<noteq> None"
  proof
    fix u assume "u \<in> set usable"
    with accepted_are_hits[of w a s rows] pr obtain r m n where
      "r \<in> set rows" "u = usable_row r (txt_path w (out_prefix a) r) m n" by auto
    with select_rows_subset[OF assms(1)] show "py_int w (year u) \<noteq> None"
      by (simp add: usable_row_def)
  qed
  with assms(2) have "\<forall>r\<in>set (case ledgers s (out_csv w (out_prefix a)) of
        None \<Rightarrow> [] | Some rows \<Rightarrow> rows) \<union> set usable. py_int w (year r) \<noteq> None"
    by blast
  from merge_ledger_total[OF this] obtain merged where
    m: "merge_ledger w (ledgers s (out_csv w (out_prefix a))) usable = Some merged"
    by blast
  have run: "process_csv w catalog a s =
      (s1\<lparr>ledgers := (ledgers s1)(out_csv w (out_prefix a) \<mapsto> merged)\<rparr>, None)"
    using assms(1) pr m l1 by (simp add: process_csv_def update_ledger_def)
  have "usable = [] \<longrightarrow>
      sort_reverse (ledger_key w)
        (map snd (by_url []
           (case ledgers s (out_csv w (out_prefix a)) of None \<Rightarrow> [] | Some old \<Rightarrow> old))) =
      Some merged"
    using m by (auto simp: merge_ledger_eq)
  with pr m run show ?thesis by blast
qed

section \<open>Two runs, evaluated\<close>

lemma demo_paths:
  "txt_path demo_world (ustr ''cc'') alpha_row = ustr ''/repo/exams/texts_cc/2021_Alpha_High.txt''"
  "txt_path demo_world (ustr ''cc'') beta_row = ustr ''/repo/exams/texts_cc/2020_Beta_High.txt''"
  "pdf_path demo_world (ustr ''cc'') alpha_row = ustr ''/repo/exams/pdfs_cc/2021_Alpha_High.pdf''"
  "pdf_path demo_world (ustr ''cc'') beta_row = ustr ''/repo/exams/pdfs_cc/2020_Beta_High.pdf''"
  "out_csv demo_world (ustr ''cc'') = ustr ''/repo/exams/usable_cc.csv''"
  by (simp_all add: demo_world_def entry_eval beta_row_def out_csv_def)

lemma demo_select:
  "select_rows demo_world (run_args m b) demo_catalog = Some [alpha_row, beta_row]"
  by (simp add: demo_world_def demo_catalog_def serving_def row_eval)

lemma demo_world_simps:
  "urlretrieve demo_world url = Retrieved [1]"
  "extract_text demo_world b = Some (ustr ''hello'')"
  "py_int demo_world = decimal_int"
  "which_pdftoppm demo_world = False"
  by (simp_all add: demo_world_def serving_def plain_world_def deliver_def read_as_def)

lemma demo_args_simps:
  "out_prefix (run_args m b) = ustr ''cc''" "min_len (run_args m b) = m"
  "use_ocr (run_args m b) = b" "limit (run_args m b) = None" "offset (run_args m b) = 0"
  by (simp_all add: run_args_def)

lemma demo_years:
  "decimal_int (year alpha_row) = Some 2021" "decimal_int (year beta_row) = Some 2020"
  "download_url alpha_row = ustr ''http://x/a.pdf''" "download_url beta_row = ustr ''http://x/b.pdf''"
  "school alpha_row = ustr ''Alpha High''" "school beta_row = ustr ''Beta High''"
  by (simp_all add: alpha_row_def beta_row_def decimal_int_def ustr_def)

lemma demo_paths_distinct:
  "ustr ''/repo/exams/texts_cc/2021_Alpha_High.txt'' \<noteq> ustr ''/repo/exams/texts_cc/2020_Beta_High.txt''"
  "ustr ''/repo/exams/pdfs_cc/2021_Alpha_High.pdf'' \<noteq> ustr ''/repo/exams/pdfs_cc/2020_Beta_High.pdf''"
  "ustr ''/repo/exams/texts_cc/2020_Beta_High.txt'' \<noteq> ustr ''/repo/exams/texts_cc/2021_Alpha_High.txt''"
  "ustr ''/repo/exams/pdfs_cc/2020_Beta_High.pdf'' \<noteq> ustr ''/repo/exams/pdfs_cc/2021_Alpha_High.pdf''"
  "ustr ''http://x/a.pdf'' \<noteq> ustr ''http://x/b.pdf''"
  "ustr ''http://x/b.pdf'' \<noteq> ustr ''http://x/a.pdf''"
  "length (ustr ''hello'') = 5"
  "str_of_nat 5 = ustr ''5''"
  by (simp_all add: ustr_def str_of_nat.simps)

lemmas run_eval = demo_paths_distinct demo_years demo_paths demo_select demo_world_simps demo_args_simps
  process_csv_def update_ledger_def merge_ledger_def by_url_def ledger_key_def sort_reverse_def
  process_rows.simps process_entry_def cache_probe_def download_pdf_def retrieve_def log_call_def
  extract_text_pdf_def recover_text_def accept_def empty_fs_def Let_def

lemma first_run_eval:
  "first_run =
     (\<lparr>texts = [ustr ''/repo/exams/texts_cc/2021_Alpha_High.txt'' \<mapsto> Text (ustr ''hello''),
                ustr ''/repo/exams/texts_cc/2020_Beta_High.txt'' \<mapsto> Text (ustr ''hello'')],
       pdfs = [ustr ''/repo/exams/pdfs_cc/2021_Alpha_High.pdf'' \<mapsto> [1],
               ustr ''/repo/exams/pdfs_cc/2020_Beta_High.pdf'' \<mapsto> [1]],
       ledgers = [ustr ''/repo/exams/usable_cc.csv'' \<mapsto>
          [usable_row alpha_row (ustr ''/repo/exams/texts_cc/2021_Alpha_High.txt'') (ustr ''pdf'') (ustr ''5''),
           usable_row beta_row (ustr ''/repo/exams/texts_cc/2020_Beta_High.txt'') (ustr ''pdf'') (ustr ''5'')]],
       calls = [Urlretrieve (ustr ''http://x/a.pdf'') (ustr ''/repo/exams/pdfs_cc/2021_Alpha_High.pdf''),
                ExtractText (ustr ''/repo/exams/pdfs_cc/2021_Alpha_High.pdf''),
                Urlretrieve (ustr ''http://x/b.pdf'') (ustr ''/repo/exams/pdfs_cc/2020_Beta_High.pdf''),
                ExtractText (ustr ''/repo/exams/pdfs_cc/2020_Beta_High.pdf'')]\<rparr>,
      None)"
  unfolding first_run_def
  by (simp add: run_eval usable_row_def)


lemma second_run_eval:
  "second_run =
     (\<lparr>texts = [ustr ''/repo/exams/texts_cc/2021_Alpha_High.txt'' \<mapsto> Text (ustr ''hello''),
                ustr ''/repo/exams/texts_cc/2020_Beta_High.txt'' \<mapsto> Text (ustr ''hello'')],
       pdfs = [ustr ''/repo/exams/pdfs_cc/2021_Alpha_High.pdf'' \<mapsto> [1],
               ustr ''/repo/exams/pdfs_cc/2020_Beta_High.pdf'' \<mapsto> [1]],
       ledgers = [ustr ''/repo/exams/usable_cc.csv'' \<mapsto>
          [usable_row alpha_row (ustr ''/repo/exams/texts_cc/2021_Alpha_High.txt'') (ustr ''cached'') (ustr ''5''),
           usable_row beta_row (ustr ''/repo/exams/texts_cc/2020_Beta_High.txt'') (ustr ''cached'') (ustr ''5'')]],
       calls = [Urlretrieve (ustr ''http://x/a.pdf'') (ustr ''/repo/exams/pdfs_cc/2021_Alpha_High.pdf''),
                ExtractText (ustr ''/repo/exams/pdfs_cc/2021_Alpha_High.pdf''),
                Urlretrieve (ustr ''http://x/b.pdf'') (ustr ''/repo/exams/pdfs_cc/2020_Beta_High.pdf''),
                ExtractText (ustr ''/repo/exams/pdfs_cc/2020_Beta_High.pdf'')]\<rparr>,
      None)"
  unfolding second_run_def first_run_eval
  by (simp add: run_eval usable_row_def)

end
